theory Spec2Isabelle
  imports Main "HOL-Library.AList" "HOL-Library.Sublist" "HOL-Library.Multiset"
begin

section \<open>Data model (trie.go, lines 7-40)\<close>

text \<open>
  A Go \<open>Node\<close> owns a map from segment to child node and an \<open>interface{}\<close> value,
  where \<open>nil\<close> means that nothing is stored. Nodes are only ever created by \<open>New\<close> and
  \<open>Insert\<close> and are never handed out, so the pointer structure is a tree and a node
  is modelled by its contents. The child map is an association list read with
  \<open>map_of\<close>, written with \<open>AList.update\<close> (replace in place, else append) and
  \<open>AList.delete\<close>; \<open>range\<close> over the map visits the list front to back, one of the
  orders Go allows. The value is a \<open>'v option\<close>, \<open>None\<close> for \<open>nil\<close>; the field is
  called \<open>val\<close> here. A Go \<open>Option\<close> is a closure that sets fields of the trie; the
  three constructors of \<open>TrieOption\<close> stand for the three closures the package
  exports.
\<close>

datatype 'v Node = Node (children: "(string \<times> 'v Node) list") (val: "'v option")

record 'v Trie =
  root :: "'v Node"
  singleWild :: string
  multiWild :: string
  separator :: string
  isSWild :: bool
  isMWild :: bool

record 'v KeyValue =
  Key :: string
  Value :: "'v option"

text \<open>A \<open>stackNode\<close> is the triple (node, i, keypart); \<open>collectAll\<close> leaves \<open>i\<close> at 0.\<close>

type_synonym 'v stackNode = "'v Node \<times> nat \<times> string"

datatype trieError = TrieError (message: string)

text \<open>
  The only way the operations can fail besides returning a \<open>trieError\<close> is the run-time
  panic of an out-of-range slice index.
\<close>

datatype panic = IndexOutOfRange

datatype TrieOption = WithSingleWild string | WithMultiWild string | WithSeparator string

section \<open>strings.Split\<close>

text \<open>
  \<open>strings.Split\<close> belongs to the Go standard library. With a non-empty separator
  it cuts at each occurrence of the separator found from the left, occurrences not
  overlapping, and always returns at least one segment. With the empty separator it
  returns one segment for each UTF-8 sequence, and no segment at all for the empty
  string; a \<open>char\<close> of the model stands for one such sequence.
\<close>

function split_sep :: "string \<Rightarrow> string \<Rightarrow> string \<Rightarrow> string list" where
  "split_sep sep acc [] = [acc]"
| "split_sep sep acc (c # cs) =
     (if sep \<noteq> [] \<and> prefix sep (c # cs)
      then acc # split_sep sep [] (drop (length sep) (c # cs))
      else split_sep sep (acc @ [c]) cs)"
  by pat_completeness auto
termination
  by (relation "measure (\<lambda>(sep, acc, s). length s)") auto

definition Split :: "string \<Rightarrow> string \<Rightarrow> string list" where
  "Split s sep = (if sep = [] then map (\<lambda>c. [c]) s else split_sep sep [] s)"

section \<open>Construction (trie.go, lines 42-71)\<close>

fun apply_option :: "TrieOption \<Rightarrow> 'v Trie \<Rightarrow> 'v Trie" where
  "apply_option (WithSingleWild wild) t = t\<lparr>singleWild := wild, isSWild := True\<rparr>"
| "apply_option (WithMultiWild wild) t = t\<lparr>multiWild := wild, isMWild := True\<rparr>"
| "apply_option (WithSeparator sep) t = t\<lparr>separator := sep\<rparr>"

definition New :: "TrieOption list \<Rightarrow> 'v Trie" where
  "New options =
     fold apply_option options
       \<lparr>root = Node [] None, singleWild = [], multiWild = [], separator = [],
        isSWild = False, isMWild = False\<rparr>"

section \<open>Insert (trie.go, lines 73-87)\<close>

definition insert_error :: "'v Trie \<Rightarrow> trieError" where
  "insert_error t =
     TrieError (''error: multi-level wildcard '' @ [CHR 0x27] @ multiWild t @ [CHR 0x27]
                @ '' permitted only at the end of the insert key.'')"

text \<open>
  The loop of \<open>Insert\<close> walks down from the root. At segment \<open>i\<close> it first checks the
  position of the multi-level token (\<open>i != len(parts)-1\<close> says that segments remain
  after this one), then creates the child if it is missing and steps into it. The
  recursion returns the node as the walk leaves it, and whether the walk reached the
  end: the children created before a rejected segment stay in the tree, as they do
  in the Go code, which returns from the middle of the loop.
\<close>

fun insert_loop :: "'v Trie \<Rightarrow> 'v option \<Rightarrow> 'v Node \<Rightarrow> string list \<Rightarrow> 'v Node \<times> bool" where
  "insert_loop t v n [] = (Node (children n) v, True)"
| "insert_loop t v n (part # rest) =
     (if isMWild t \<and> part = multiWild t \<and> rest \<noteq> [] then (n, False)
      else
        let child = (case map_of (children n) part of
                       None \<Rightarrow> Node [] None
                     | Some c \<Rightarrow> c);
            (child', ok) = insert_loop t v child rest
        in (Node (AList.update part child' (children n)) (val n), ok))"

definition Insert :: "'v Trie \<Rightarrow> string \<Rightarrow> 'v option \<Rightarrow> 'v Trie \<times> bool \<times> trieError option" where
  "Insert t key v =
     (let (r, ok) = insert_loop t v (root t) (Split key (separator t))
      in (t\<lparr>root := r\<rparr>, ok, if ok then None else Some (insert_error t)))"

section \<open>Retrieve (trie.go, lines 89-103)\<close>

definition retrieve_error :: "'v Trie \<Rightarrow> trieError" where
  "retrieve_error t =
     TrieError (''error: multi-level wildcard '' @ [CHR 0x27] @ multiWild t @ [CHR 0x27]
                @ '' permitted only at the end of the retrieve key.'')"

fun retrieve_loop :: "'v Trie \<Rightarrow> 'v Node \<Rightarrow> string list \<Rightarrow> 'v option \<times> trieError option" where
  "retrieve_loop t n [] = (val n, None)"
| "retrieve_loop t n (part # rest) =
     (if isMWild t \<and> part = multiWild t \<and> rest \<noteq> [] then (None, Some (retrieve_error t))
      else case map_of (children n) part of
             None \<Rightarrow> (None, None)
           | Some nextNode \<Rightarrow> retrieve_loop t nextNode rest)"

definition Retrieve :: "'v Trie \<Rightarrow> string \<Rightarrow> 'v option \<times> trieError option" where
  "Retrieve t key = retrieve_loop t (root t) (Split key (separator t))"

section \<open>collectAll (trie.go, lines 105-117)\<close>

text \<open>
  The work lists of \<open>collectAll\<close> and \<open>Match\<close> are Go slices used as stacks: \<open>append\<close>
  pushes at the end and the loop pops the last element. The model keeps the top of
  the stack at the head of the list, so a push is a \<open>Cons\<close>.

  The number of nodes of a subtree bounds the work left for a stack entry.
\<close>

fun weight :: "'v Node \<Rightarrow> nat" where
  "weight (Node cs v) = Suc (sum_list (map (\<lambda>p. weight (snd p)) cs))"

definition stack_weight :: "'v stackNode list \<Rightarrow> nat" where
  "stack_weight stack = sum_list (map (\<lambda>f. weight (fst f)) stack)"

definition push_children :: "string \<Rightarrow> string \<Rightarrow> (string \<times> 'v Node) list \<Rightarrow> 'v stackNode list \<Rightarrow> 'v stackNode list" where
  "push_children sep keypart cs stack =
     fold (\<lambda>(k, v) st. (v, 0, keypart @ k @ sep) # st) cs stack"

lemma stack_weight_push_children:
  "stack_weight (push_children sep keypart cs stack)
     = sum_list (map (\<lambda>p. weight (snd p)) cs) + stack_weight stack"
  unfolding push_children_def
  by (induction cs arbitrary: stack) (auto simp: stack_weight_def)

lemma weight_children: "sum_list (map (\<lambda>p. weight (snd p)) (children n)) < weight n"
  by (cases n) simp

function collect_loop :: "string \<Rightarrow> 'v stackNode list \<Rightarrow> 'v KeyValue list \<Rightarrow> 'v KeyValue list" where
  "collect_loop sep [] matches = matches"
| "collect_loop sep ((n, i, keypart) # stack) matches =
     collect_loop sep
       (push_children sep keypart (children n) stack)
       (if val n \<noteq> None then matches @ [\<lparr>Key = keypart, Value = val n\<rparr>] else matches)"
  by pat_completeness auto
termination
proof (relation "measure (\<lambda>(sep, stack, matches). stack_weight stack)")
  show "wf (measure (\<lambda>(sep, stack, matches). stack_weight stack))"
    by simp
next
  fix sep :: string and n :: "'v Node" and i :: nat and keypart :: string
    and stack :: "'v stackNode list" and matches :: "'v KeyValue list"
  have "stack_weight (push_children sep keypart (children n) stack)
          < stack_weight ((n, i, keypart) # stack)"
    using weight_children [of n]
    by (simp add: stack_weight_push_children) (simp add: stack_weight_def)
  then show "((sep, push_children sep keypart (children n) stack,
                if val n \<noteq> None then matches @ [\<lparr>Key = keypart, Value = val n\<rparr>]
                else matches),
               (sep, (n, i, keypart) # stack, matches))
             \<in> measure (\<lambda>(sep, stack, matches). stack_weight stack)"
    by simp
qed

definition collectAll :: "'v Node \<Rightarrow> string \<Rightarrow> 'v KeyValue list \<Rightarrow> string \<Rightarrow> 'v KeyValue list" where
  "collectAll startNode startKeypart matches sep =
     collect_loop sep [(startNode, 0, startKeypart)] matches"

section \<open>Match (trie.go, lines 119-171)\<close>

text \<open>
  One definition for each of the two branches of the loop body that push work; the
  multi-level branch is the call of \<open>collectAll\<close>. Each takes and returns the pair
  (stack, matches). With \<open>i < len(parts)\<close>, the test \<open>i == len(parts)-1\<close> is
  \<open>Suc i = length parts\<close> and \<open>i < len(parts)-1\<close> is \<open>Suc i < length parts\<close>.
\<close>

fun single_step ::
  "'v Trie \<Rightarrow> string list \<Rightarrow> nat \<Rightarrow> string \<Rightarrow> string \<times> 'v Node
     \<Rightarrow> 'v stackNode list \<times> 'v KeyValue list \<Rightarrow> 'v stackNode list \<times> 'v KeyValue list" where
  "single_step t parts i keypart (k, childNode) (stack, matches) =
     (if Suc i = length parts \<and> val childNode \<noteq> None
      then (stack, matches @ [\<lparr>Key = keypart @ k, Value = val childNode\<rparr>])
      else if Suc i < length parts
      then ((childNode, Suc i, keypart @ k @ separator t) # stack, matches)
      else (stack, matches))"

definition single_branch ::
  "'v Trie \<Rightarrow> string list \<Rightarrow> 'v Node \<Rightarrow> nat \<Rightarrow> string
     \<Rightarrow> 'v stackNode list \<times> 'v KeyValue list \<Rightarrow> 'v stackNode list \<times> 'v KeyValue list" where
  "single_branch t parts n i keypart sm = fold (single_step t parts i keypart) (children n) sm"

text \<open>
  The step shared by the first two checks of the literal branch (lines 141-148 and
  150-159): the child named \<open>k\<close>, if there is one, is collected when the pattern ends
  here and the child holds a value, and is pushed with index \<open>i + 1\<close> otherwise.
\<close>

definition descend ::
  "'v Trie \<Rightarrow> string list \<Rightarrow> 'v Node \<Rightarrow> nat \<Rightarrow> string \<Rightarrow> string
     \<Rightarrow> 'v stackNode list \<times> 'v KeyValue list \<Rightarrow> 'v stackNode list \<times> 'v KeyValue list" where
  "descend t parts n i keypart k sm =
     (case sm of (stack, matches) \<Rightarrow>
        (case map_of (children n) k of
           None \<Rightarrow> (stack, matches)
         | Some keyNode \<Rightarrow>
             if Suc i = length parts \<and> val keyNode \<noteq> None
             then (stack, matches @ [\<lparr>Key = keypart @ k, Value = val keyNode\<rparr>])
             else ((keyNode, Suc i, keypart @ k @ separator t) # stack, matches)))"

definition multi_child ::
  "'v Trie \<Rightarrow> 'v Node \<Rightarrow> string
     \<Rightarrow> 'v stackNode list \<times> 'v KeyValue list \<Rightarrow> 'v stackNode list \<times> 'v KeyValue list" where
  "multi_child t n keypart sm =
     (case sm of (stack, matches) \<Rightarrow>
        (case map_of (children n) (multiWild t) of
           None \<Rightarrow> (stack, matches)
         | Some multiWildNode \<Rightarrow>
             (stack, matches @ [\<lparr>Key = keypart @ multiWild t, Value = val multiWildNode\<rparr>])))"

definition literal_branch ::
  "'v Trie \<Rightarrow> string list \<Rightarrow> 'v Node \<Rightarrow> nat \<Rightarrow> string
     \<Rightarrow> 'v stackNode list \<times> 'v KeyValue list \<Rightarrow> 'v stackNode list \<times> 'v KeyValue list" where
  "literal_branch t parts n i keypart sm =
     (let sm1 = descend t parts n i keypart (parts ! i) sm;
          sm2 = (if isSWild t then descend t parts n i keypart (singleWild t) sm1 else sm1)
      in if isMWild t then multi_child t n keypart sm2 else sm2)"

text \<open>
  Every push of the loop body is a child of the node just popped, and in the literal
  branch the two children pushed have different names. So the number of nodes under
  the stack falls with every iteration.
\<close>

lemma weight_child_le:
  "map_of cs k = Some c \<Longrightarrow> weight c \<le> sum_list (map (\<lambda>p. weight (snd p)) cs)"
  by (induction cs) (auto split: if_splits)

lemma weight_two_children_le:
  "k1 \<noteq> k2 \<Longrightarrow> map_of cs k1 = Some c1 \<Longrightarrow> map_of cs k2 = Some c2
     \<Longrightarrow> weight c1 + weight c2 \<le> sum_list (map (\<lambda>p. weight (snd p)) cs)"
proof (induction cs)
  case Nil
  then show ?case by simp
next
  case (Cons a cs)
  then show ?case
    using weight_child_le [of cs k1 c1] weight_child_le [of cs k2 c2]
    by (cases a) (auto split: if_splits)
qed

lemma stack_weight_single_step:
  "stack_weight (fst (single_step t parts i keypart kc sm)) \<le> weight (snd kc) + stack_weight (fst sm)"
  by (cases kc; cases sm) (simp add: stack_weight_def)

lemma stack_weight_single_branch:
  "stack_weight (fst (fold (single_step t parts i keypart) cs sm))
     \<le> sum_list (map (\<lambda>p. weight (snd p)) cs) + stack_weight (fst sm)"
proof (induction cs arbitrary: sm)
  case Nil
  then show ?case by simp
next
  case (Cons a cs)
  have "stack_weight (fst (fold (single_step t parts i keypart) cs (single_step t parts i keypart a sm)))
          \<le> sum_list (map (\<lambda>p. weight (snd p)) cs)
              + stack_weight (fst (single_step t parts i keypart a sm))"
    by (rule Cons.IH)
  also have "\<dots> \<le> sum_list (map (\<lambda>p. weight (snd p)) cs) + (weight (snd a) + stack_weight (fst sm))"
    using stack_weight_single_step [of t parts i keypart a sm] by simp
  finally show ?case by simp
qed

lemma stack_weight_descend:
  "stack_weight (fst (descend t parts n i keypart k sm))
     \<le> (case map_of (children n) k of None \<Rightarrow> 0 | Some c \<Rightarrow> weight c) + stack_weight (fst sm)"
  by (cases sm) (auto simp: descend_def stack_weight_def split: option.splits)

lemma stack_weight_multi_child:
  "stack_weight (fst (multi_child t n keypart sm)) = stack_weight (fst sm)"
  by (cases sm) (auto simp: multi_child_def split: option.splits)

lemma stack_weight_literal_branch:
  assumes "isSWild t \<longrightarrow> parts ! i \<noteq> singleWild t"
  shows "stack_weight (fst (literal_branch t parts n i keypart sm))
           \<le> sum_list (map (\<lambda>p. weight (snd p)) (children n)) + stack_weight (fst sm)"
proof -
  let ?S = "sum_list (map (\<lambda>p. weight (snd p)) (children n))"
  let ?w = "\<lambda>k. case map_of (children n) k of None \<Rightarrow> 0 | Some c \<Rightarrow> weight c"
  let ?sm1 = "descend t parts n i keypart (parts ! i) sm"
  let ?sm2 = "if isSWild t then descend t parts n i keypart (singleWild t) ?sm1 else ?sm1"
  have one: "?w k \<le> ?S" for k
    using weight_child_le [of "children n" k] by (auto split: option.splits)
  have two: "k1 \<noteq> k2 \<Longrightarrow> ?w k1 + ?w k2 \<le> ?S" for k1 k2
    using weight_two_children_le [of k1 k2 "children n"] weight_child_le [of "children n"]
    by (auto split: option.splits)
  have s1: "stack_weight (fst ?sm1) \<le> ?w (parts ! i) + stack_weight (fst sm)"
    by (rule stack_weight_descend)
  have s2: "stack_weight (fst ?sm2) \<le> ?S + stack_weight (fst sm)"
  proof (cases "isSWild t")
    case True
    have "stack_weight (fst ?sm2) \<le> ?w (singleWild t) + stack_weight (fst ?sm1)"
      using True stack_weight_descend [of t parts n i keypart "singleWild t" ?sm1] by simp
    also have "\<dots> \<le> ?w (singleWild t) + (?w (parts ! i) + stack_weight (fst sm))"
      using s1 by simp
    also have "\<dots> \<le> ?S + stack_weight (fst sm)"
      using two [of "singleWild t" "parts ! i"] assms True by simp
    finally show ?thesis .
  next
    case False
    then show ?thesis using s1 one [of "parts ! i"] by simp
  qed
  show ?thesis
    using s2 by (simp add: literal_branch_def Let_def stack_weight_multi_child)
qed

text \<open>
  The loop of \<open>Match\<close>. Every iteration reads \<open>parts[i]\<close>, whatever the configuration
  (the last branch reads it unconditionally), and Go panics there when
  \<open>i \<ge> len(parts)\<close>.
\<close>

function match_loop ::
  "'v Trie \<Rightarrow> string list \<Rightarrow> 'v stackNode list \<Rightarrow> 'v KeyValue list \<Rightarrow> panic + 'v KeyValue list" where
  "match_loop t parts [] matches = Inr matches"
| "match_loop t parts ((n, i, keypart) # stack) matches =
     (if length parts \<le> i then Inl IndexOutOfRange
      else if isMWild t \<and> parts ! i = multiWild t
      then match_loop t parts stack (collectAll n keypart matches (separator t))
      else if isSWild t \<and> parts ! i = singleWild t
      then (let sm = single_branch t parts n i keypart (stack, matches)
            in match_loop t parts (fst sm) (snd sm))
      else (let sm = literal_branch t parts n i keypart (stack, matches)
            in match_loop t parts (fst sm) (snd sm)))"
  by pat_completeness auto
termination
proof (relation "measure (\<lambda>(t, parts, stack, matches). stack_weight stack)", goal_cases)
  case 1
  show ?case by simp
next
  case (2 t parts n i keypart stack matches)
  show ?case using weight_children [of n] by (simp add: stack_weight_def)
next
  case (3 t parts n i keypart stack matches sm)
  then show ?case
    using stack_weight_single_branch [of t parts i keypart "children n" "(stack, matches)"]
      weight_children [of n]
    by (simp add: single_branch_def case_prod_beta stack_weight_def)
next
  case (4 t parts n i keypart stack matches sm)
  then have "isSWild t \<longrightarrow> parts ! i \<noteq> singleWild t"
    by simp
  from stack_weight_literal_branch [OF this, of n keypart "(stack, matches)"] 4
  show ?case
    using weight_children [of n]
    by (simp add: case_prod_beta stack_weight_def)
qed

definition Match :: "'v Trie \<Rightarrow> string \<Rightarrow> panic + 'v KeyValue list" where
  "Match t key = match_loop t (Split key (separator t)) [(root t, 0, [])] []"

section \<open>Delete (trie.go, lines 173-199)\<close>

text \<open>
  The first loop walks down and records the nodes visited in \<open>parentStack\<close> (top at
  the head here); it gives up at the first missing child.
\<close>

fun walk :: "'v Node \<Rightarrow> string list \<Rightarrow> 'v Node list \<Rightarrow> 'v Node list option" where
  "walk n [] parentStack = Some parentStack"
| "walk n (part # rest) parentStack =
     (case map_of (children n) part of
        None \<Rightarrow> None
      | Some child \<Rightarrow> walk child rest (child # parentStack))"

text \<open>
  The second loop climbs back with \<open>i\<close> running from the last segment to the first,
  so it reads the segments in reverse. The Go nodes are shared objects: a change to
  \<open>node\<close> is seen through its parent's map. In the model the recorded parents are
  values, so when the loop stops at a node that is kept, \<open>relink\<close> writes that node
  back into the recorded chain above it.
\<close>

fun relink :: "'v Node \<Rightarrow> 'v Node list \<Rightarrow> string list \<Rightarrow> 'v Node" where
  "relink n (parent # parentStack) (part # rparts) =
     relink (Node (AList.update part n (children parent)) (val parent)) parentStack rparts"
| "relink n parentStack rparts = n"

fun prune :: "'v Node \<Rightarrow> 'v Node list \<Rightarrow> string list \<Rightarrow> 'v Node" where
  "prune n (parent # parentStack) (part # rparts) =
     (if val n \<noteq> None \<or> children n \<noteq> [] then relink n (parent # parentStack) (part # rparts)
      else prune (Node (AList.delete part (children parent)) (val parent)) parentStack rparts)"
| "prune n parentStack rparts = n"

definition Delete :: "'v Trie \<Rightarrow> string \<Rightarrow> 'v Trie \<times> bool" where
  "Delete t key =
     (let parts = Split key (separator t) in
      case walk (root t) parts [root t] of
        None \<Rightarrow> (t, False)
      | Some parentStack \<Rightarrow>
          (case parentStack of
             [] \<Rightarrow> (t, False)
           | n # parents \<Rightarrow>
               if val n = None then (t, False)
               else (t\<lparr>root := prune (Node (children n) None) parents (rev parts)\<rparr>, True)))"

section \<open>The tries built by the test suite\<close>

text \<open>
  The configuration used by \<open>TestMatching\<close> and \<open>TestOverlappingKeysWithWildcards\<close>.
\<close>

definition slash_trie :: "'v Trie" where
  "slash_trie = New [WithSingleWild ''+'', WithMultiWild ''#'', WithSeparator ''/'']"

definition inserted :: "'v Trie \<Rightarrow> string \<Rightarrow> 'v option \<Rightarrow> 'v Trie" where
  "inserted t key v = fst (Insert t key v)"

definition overlap_trie :: "'v \<Rightarrow> 'v \<Rightarrow> 'v \<Rightarrow> 'v \<Rightarrow> 'v Trie" where
  "overlap_trie v1 v2 v3 v4 =
     inserted (inserted (inserted (inserted slash_trie
       ''a/b/c/d'' (Some v1)) ''a/+/c/d'' (Some v2)) ''a/b/c/#'' (Some v3)) ''a/+/+/#'' (Some v4)"

definition matching_trie :: "'v \<Rightarrow> 'v \<Rightarrow> 'v \<Rightarrow> 'v Trie" where
  "matching_trie v1 v2 v3 =
     inserted (inserted (inserted slash_trie
       ''a/b/d/#'' (Some v1)) ''a/b/c/d'' (Some v2)) ''a/b/c/f'' (Some v3)"

lemmas trie_eval =
  Match_def Insert_def New_def Split_def literal_branch_def descend_def multi_child_def
  single_branch_def collectAll_def push_children_def Let_def Delete_def Retrieve_def
  inserted_def slash_trie_def

section \<open>Predicates used to state the claims\<close>

text \<open>The node reached from \<open>n\<close> along a sequence of segments, if the whole path exists.\<close>

fun node_at :: "'v Node \<Rightarrow> string list \<Rightarrow> 'v Node option" where
  "node_at n [] = Some n"
| "node_at n (part # rest) =
     (case map_of (children n) part of
        None \<Rightarrow> None
      | Some child \<Rightarrow> node_at child rest)"

text \<open>
  A key has no wildcard segment when none of its segments is a wildcard token that
  the trie has enabled.
\<close>

definition no_wildcard_segment :: "'v Trie \<Rightarrow> string \<Rightarrow> bool" where
  "no_wildcard_segment t key =
     list_all (\<lambda>part. \<not> (isMWild t \<and> part = multiWild t) \<and> \<not> (isSWild t \<and> part = singleWild t))
       (Split key (separator t))"

text \<open>
  The pruning invariant: below \<open>n\<close>, every node holds a value or has a child. The
  node \<open>n\<close> itself (the root) is not constrained.
\<close>

definition kept :: "'v Node \<Rightarrow> bool" where
  "kept n \<longleftrightarrow> val n \<noteq> None \<or> children n \<noteq> []"

fun pruned :: "'v Node \<Rightarrow> bool" where
  "pruned (Node cs v) = list_all (\<lambda>kc. kept (snd kc) \<and> pruned (snd kc)) cs"

text \<open>
  The tries that construction, successful inserts of non-nil values and deletes
  produce. \<open>Retrieve\<close> and \<open>Match\<close> write to no node, so they return no new trie and
  add no rule.
\<close>

inductive stores_only :: "'v Trie \<Rightarrow> bool" where
  new: "stores_only (New options)"
| insert: "stores_only t \<Longrightarrow> Insert t key (Some v) = (t', True, err) \<Longrightarrow> stores_only t'"
| delete: "stores_only t \<Longrightarrow> Delete t key = (t', b) \<Longrightarrow> stores_only t'"

text \<open>
  The tries that construction followed by any calls of \<open>Insert\<close> and \<open>Delete\<close> produce,
  whatever the calls return.
\<close>

inductive reachable :: "'v Trie \<Rightarrow> bool" where
  new: "reachable (New options)"
| insert: "reachable t \<Longrightarrow> Insert t key v = (t', ok, err) \<Longrightarrow> reachable t'"
| delete: "reachable t \<Longrightarrow> Delete t key = (t', b) \<Longrightarrow> reachable t'"

text \<open>
  The key prefix that the loop of \<open>Match\<close> has accumulated when it stands at the node
  reached along \<open>path\<close> (every segment followed by the separator), and the key of
  that node: its segments joined by the separator, as \<open>strings.Join\<close> does.
\<close>

definition keypart_of :: "string \<Rightarrow> string list \<Rightarrow> string" where
  "keypart_of sep path = concat (map (\<lambda>part. part @ sep) path)"

fun join :: "string \<Rightarrow> string list \<Rightarrow> string" where
  "join sep [] = []"
| "join sep [part] = part"
| "join sep (part # rest) = part @ sep @ join sep rest"

text \<open>
  The branch that the loop body takes for the segment at index \<open>i\<close> (lines 130, 132
  and 140), and the pairs that one iteration appends to \<open>matches\<close> for the popped
  entry (node, \<open>i\<close>, keypart): lemma \<open>match_loop_step\<close> below shows that an iteration
  of \<open>match_loop\<close> appends exactly these.
\<close>

definition multi_dispatch :: "'v Trie \<Rightarrow> string list \<Rightarrow> nat \<Rightarrow> bool" where
  "multi_dispatch t parts i \<longleftrightarrow> isMWild t \<and> parts ! i = multiWild t"

definition single_dispatch :: "'v Trie \<Rightarrow> string list \<Rightarrow> nat \<Rightarrow> bool" where
  "single_dispatch t parts i \<longleftrightarrow> \<not> multi_dispatch t parts i \<and> isSWild t \<and> parts ! i = singleWild t"

definition literal_dispatch :: "'v Trie \<Rightarrow> string list \<Rightarrow> nat \<Rightarrow> bool" where
  "literal_dispatch t parts i \<longleftrightarrow> \<not> multi_dispatch t parts i \<and> \<not> single_dispatch t parts i"

definition emitted :: "'v Trie \<Rightarrow> string list \<Rightarrow> 'v Node \<Rightarrow> nat \<Rightarrow> string \<Rightarrow> 'v KeyValue list" where
  "emitted t parts n i keypart =
     (if multi_dispatch t parts i then collectAll n keypart [] (separator t)
      else if single_dispatch t parts i then snd (single_branch t parts n i keypart ([], []))
      else snd (literal_branch t parts n i keypart ([], [])))"

text \<open>
  A pair is produced at \<open>path\<close> when the iteration for the node reached along
  \<open>path\<close>, with the index and the key prefix that the loop has there, appends it.
\<close>

definition produced_at :: "'v Trie \<Rightarrow> string list \<Rightarrow> string list \<Rightarrow> 'v KeyValue \<Rightarrow> bool" where
  "produced_at t parts path kv \<longleftrightarrow>
     (case node_at (root t) path of
        None \<Rightarrow> False
      | Some n \<Rightarrow> length path < length parts
          \<and> kv \<in> set (emitted t parts n (length path) (keypart_of (separator t) path)))"

section \<open>Match on concrete tries\<close>

text \<open>
  C1. The claim is that \<open>Match\<close> always runs to completion and returns a sequence of
  matches. The literal branch pushes the child named by the last pattern segment
  with index \<open>len(parts)\<close> when that child holds no value, and the next iteration
  reads \<open>parts[len(parts)]\<close>: after \<open>Insert("a/b", "value1")\<close>, the call
  \<open>Match("a")\<close> panics instead of returning the empty sequence.
\<close>

theorem Match_panics_on_valueless_path:
  "Match (inserted (New [WithSeparator ''/'']) ''a/b'' (Some ''value1'')) ''a''
     = Inl IndexOutOfRange"
  by (simp add: trie_eval)

text \<open>
  With the default empty separator the empty pattern has no segment at all, and the
  first iteration already reads \<open>parts[0]\<close>.
\<close>

lemma Match_panics_on_empty_key: "Match (New [] :: string Trie) [] = Inl IndexOutOfRange"
  by (simp add: trie_eval)

text \<open>
  C3, as claimed: with the four overlapping entries \<open>a/b/c/d\<close>, \<open>a/+/c/d\<close>,
  \<open>a/b/c/#\<close> and \<open>a/+/+/#\<close>, \<open>Match("a/b/c/d")\<close> would return one match. It does
  not.
\<close>

theorem Match_overlap_not_one:
  "map_sum id length
     (Match (overlap_trie ''value1'' ''value2'' ''value3'' ''value4'') ''a/b/c/d'') \<noteq> Inr 1"
  by (simp add: trie_eval overlap_trie_def)

text \<open>
  C3, amended: with the four overlapping entries stored, whatever their (non-nil)
  values, \<open>Match("a/b/c/d")\<close> returns exactly 4 matches, one for each stored entry,
  as \<open>TestOverlappingKeysWithWildcards\<close> expects.
\<close>

theorem Match_overlap_four:
  "\<exists>ms. Match (overlap_trie v1 v2 v3 v4) ''a/b/c/d'' = Inr ms \<and> length ms = 4
     \<and> mset ms = {#\<lparr>Key = ''a/b/c/d'', Value = Some v1\<rparr>, \<lparr>Key = ''a/+/c/d'', Value = Some v2\<rparr>,
                   \<lparr>Key = ''a/b/c/#'', Value = Some v3\<rparr>, \<lparr>Key = ''a/+/+/#'', Value = Some v4\<rparr>#}"
  by (simp add: trie_eval overlap_trie_def)

text \<open>
  C5. After inserting \<open>a/b/d/#\<close>, \<open>a/b/c/d\<close> and \<open>a/b/c/f\<close>, \<open>Match("a/b/+/#")\<close>
  returns exactly 3 matches: the two exact entries and the wildcard entry. The
  multiset says which, whatever the order of the result.
\<close>

theorem Match_multi_level_three:
  "\<exists>ms. Match (matching_trie v1 v2 v3) ''a/b/+/#'' = Inr ms \<and> length ms = 3
     \<and> mset (map Value ms) = {#Some v1, Some v2, Some v3#}"
  by (simp add: trie_eval matching_trie_def)

text \<open>
  The four counts that \<open>TestMatching\<close> asserts, with the entries inserted in the order
  of the test.
\<close>

lemma TestMatching_counts:
  "map_sum id length (Match (inserted (inserted (inserted slash_trie
      ''a/b/c/d'' (Some v1)) ''a/b/c/f'' (Some v2)) ''a/b/d/#'' (Some v3)) ''a/b/c/d'') = Inr 1"
  "map_sum id length (Match (inserted (inserted (inserted slash_trie
      ''a/b/c/d'' (Some v1)) ''a/b/c/f'' (Some v2)) ''a/b/d/#'' (Some v3)) ''a/b/c/+'') = Inr 2"
  "map_sum id length (Match (inserted (inserted (inserted slash_trie
      ''a/b/c/d'' (Some v1)) ''a/b/c/f'' (Some v2)) ''a/b/d/#'' (Some v3)) ''a/b/+/d'') = Inr 2"
  "map_sum id length (Match (inserted (inserted (inserted slash_trie
      ''a/b/c/d'' (Some v1)) ''a/b/c/f'' (Some v2)) ''a/b/d/#'' (Some v3)) ''a/b/+/#'') = Inr 3"
  by (simp_all add: trie_eval)

text \<open>
  The model visits the children of a node in the order of their insertion. The
  count of C5 is the same for each of the six orders in which the three entries
  can be inserted, that is, for each order of the children of \<open>a/b\<close> and of
  \<open>a/b/c\<close>.
\<close>

lemma Match_multi_level_three_any_insertion_order:
  "map_sum id length (Match (inserted (inserted (inserted slash_trie
      ''a/b/d/#'' (Some v1)) ''a/b/c/d'' (Some v2)) ''a/b/c/f'' (Some v3)) ''a/b/+/#'') = Inr 3"
  "map_sum id length (Match (inserted (inserted (inserted slash_trie
      ''a/b/d/#'' (Some v1)) ''a/b/c/f'' (Some v3)) ''a/b/c/d'' (Some v2)) ''a/b/+/#'') = Inr 3"
  "map_sum id length (Match (inserted (inserted (inserted slash_trie
      ''a/b/c/d'' (Some v2)) ''a/b/d/#'' (Some v1)) ''a/b/c/f'' (Some v3)) ''a/b/+/#'') = Inr 3"
  "map_sum id length (Match (inserted (inserted (inserted slash_trie
      ''a/b/c/d'' (Some v2)) ''a/b/c/f'' (Some v3)) ''a/b/d/#'' (Some v1)) ''a/b/+/#'') = Inr 3"
  "map_sum id length (Match (inserted (inserted (inserted slash_trie
      ''a/b/c/f'' (Some v3)) ''a/b/d/#'' (Some v1)) ''a/b/c/d'' (Some v2)) ''a/b/+/#'') = Inr 3"
  "map_sum id length (Match (inserted (inserted (inserted slash_trie
      ''a/b/c/f'' (Some v3)) ''a/b/c/d'' (Some v2)) ''a/b/d/#'' (Some v1)) ''a/b/+/#'') = Inr 3"
  by (simp_all add: trie_eval)

section \<open>Insert and Retrieve\<close>

text \<open>The child that the loop of \<open>Insert\<close> steps into (lines 80-83).\<close>

definition child_or_new :: "'v Node \<Rightarrow> string \<Rightarrow> 'v Node" where
  "child_or_new n part = (case map_of (children n) part of None \<Rightarrow> Node [] None | Some c \<Rightarrow> c)"

lemma insert_loop_Cons:
  "insert_loop t v n (part # rest) =
     (if isMWild t \<and> part = multiWild t \<and> rest \<noteq> [] then (n, False)
      else (Node (AList.update part (fst (insert_loop t v (child_or_new n part) rest)) (children n)) (val n),
            snd (insert_loop t v (child_or_new n part) rest)))"
  by (simp add: Let_def case_prod_beta child_or_new_def)

lemma insert_loop_ok:
  "list_all (\<lambda>part. \<not> (isMWild t \<and> part = multiWild t)) parts \<Longrightarrow> snd (insert_loop t v n parts)"
  by (induction parts arbitrary: n) (auto simp: insert_loop_Cons simp del: insert_loop.simps(2))

lemma retrieve_insert_loop:
  "snd (insert_loop t v n parts) \<Longrightarrow> retrieve_loop t (fst (insert_loop t v n parts)) parts = (v, None)"
  by (induction parts arbitrary: n)
     (auto simp: insert_loop_Cons update_conv' simp del: insert_loop.simps(2) split: if_splits)

lemma retrieve_loop_config:
  "isMWild t' = isMWild t \<Longrightarrow> multiWild t' = multiWild t \<Longrightarrow> retrieve_loop t' n parts = retrieve_loop t n parts"
  by (induction parts arbitrary: n) (auto simp: retrieve_error_def split: option.splits)

lemma insert_loop_config:
  "isMWild t' = isMWild t \<Longrightarrow> multiWild t' = multiWild t \<Longrightarrow> insert_loop t' v n parts = insert_loop t v n parts"
  by (induction parts arbitrary: n) (auto simp: Let_def split: option.splits prod.splits)

lemma Retrieve_after_ok_Insert:
  assumes "Insert t key v = (t', True, err)"
  shows "Retrieve t' key = (v, None)"
proof -
  obtain r where r: "insert_loop t v (root t) (Split key (separator t)) = (r, True)" and t': "t' = t\<lparr>root := r\<rparr>"
    using assms by (auto simp: Insert_def Let_def split: prod.splits)
  have "retrieve_loop t r (Split key (separator t)) = (v, None)"
    using retrieve_insert_loop [of t v "root t" "Split key (separator t)"] r by simp
  then show ?thesis
    using retrieve_loop_config [of t' t r] by (simp add: Retrieve_def t')
qed

text \<open>
  C6. For every key with no wildcard segment and every value, \<open>Insert(key, value)\<close>
  succeeds and \<open>Retrieve(key)\<close> on the resulting trie returns that value with no
  error.
\<close>

theorem Retrieve_after_Insert:
  assumes "no_wildcard_segment t key"
  shows "Insert t key v = (inserted t key v, True, None)
           \<and> Retrieve (inserted t key v) key = (v, None)"
proof -
  have "list_all (\<lambda>part. \<not> (isMWild t \<and> part = multiWild t)) (Split key (separator t))"
    using assms by (auto simp: no_wildcard_segment_def list_all_iff)
  then have ok: "snd (insert_loop t v (root t) (Split key (separator t)))"
    by (rule insert_loop_ok)
  then have ins: "Insert t key v = (inserted t key v, True, None)"
    by (simp add: Insert_def inserted_def Let_def case_prod_beta)
  from Retrieve_after_ok_Insert [OF ins] ins show ?thesis by simp
qed

theorem Retrieve_after_Insert_witness:
  "no_wildcard_segment (slash_trie :: string Trie) ''a/b/c/d''
     \<and> Retrieve (inserted slash_trie ''a/b/c/d'' (Some ''value3'')) ''a/b/c/d'' = (Some ''value3'', None)"
proof -
  have h: "no_wildcard_segment (slash_trie :: string Trie) ''a/b/c/d''"
    by (simp add: no_wildcard_segment_def trie_eval)
  show ?thesis
    using h Retrieve_after_Insert [OF h, of "Some ''value3''"] by simp
qed

lemma insert_loop_ok_indep:
  "snd (insert_loop t v n parts) = snd (insert_loop t v' n' parts)"
  by (induction parts arbitrary: n n')
     (auto simp: insert_loop_Cons simp del: insert_loop.simps(2))

lemma insert_loop_twice:
  "insert_loop t v2 (fst (insert_loop t v1 n parts)) parts = insert_loop t v2 n parts"
  by (induction parts arbitrary: n)
     (auto simp: insert_loop_Cons update_conv' child_or_new_def simp del: insert_loop.simps(2))

text \<open>
  C8. If \<open>Insert(key, v1)\<close> succeeds, then \<open>Insert(key, v2)\<close> on the resulting trie
  succeeds too and leaves exactly the trie that \<open>Insert(key, v2)\<close> alone would have
  built from the start, in which \<open>Retrieve(key)\<close> returns \<open>v2\<close>: the second insert
  overwrites the first and adds no state.
\<close>

theorem Insert_overwrites:
  assumes "Insert t key v1 = (t1, True, None)"
  shows "Insert t1 key v2 = (inserted t key v2, True, None)
           \<and> Retrieve (inserted t key v2) key = (v2, None)"
proof -
  let ?parts = "Split key (separator t)"
  obtain r1 where r1: "insert_loop t v1 (root t) ?parts = (r1, True)" and t1: "t1 = t\<lparr>root := r1\<rparr>"
    using assms by (auto simp: Insert_def Let_def split: prod.splits)
  have cfg: "insert_loop t1 v2 r1 ?parts = insert_loop t v2 r1 ?parts"
    by (rule insert_loop_config) (simp_all add: t1)
  have twice: "insert_loop t v2 r1 ?parts = insert_loop t v2 (root t) ?parts"
    using insert_loop_twice [of t v2 v1 "root t" ?parts] r1 by simp
  have ok: "snd (insert_loop t v2 (root t) ?parts)"
    using insert_loop_ok_indep [of t v2 "root t" ?parts v1 "root t"] r1 by simp
  have "Insert t1 key v2 = (t\<lparr>root := fst (insert_loop t v2 (root t) ?parts)\<rparr>, True, None)"
    using cfg twice ok by (simp add: Insert_def Let_def case_prod_beta t1)
  moreover have ins: "Insert t key v2 = (inserted t key v2, True, None)"
    using ok by (simp add: Insert_def inserted_def Let_def case_prod_beta)
  moreover have "inserted t key v2 = t\<lparr>root := fst (insert_loop t v2 (root t) ?parts)\<rparr>"
    by (simp add: Insert_def inserted_def Let_def case_prod_beta)
  ultimately show ?thesis
    using Retrieve_after_ok_Insert [OF ins] by simp
qed

theorem Insert_overwrites_witness:
  "Insert (slash_trie :: string Trie) ''a/b'' (Some ''value1'')
      = (inserted slash_trie ''a/b'' (Some ''value1''), True, None)
   \<and> Insert (inserted slash_trie ''a/b'' (Some ''value1'')) ''a/b'' (Some ''value2'')
      = (inserted slash_trie ''a/b'' (Some ''value2''), True, None)
   \<and> Retrieve (inserted slash_trie ''a/b'' (Some ''value2'')) ''a/b'' = (Some ''value2'', None)"
proof -
  have h: "Insert (slash_trie :: string Trie) ''a/b'' (Some ''value1'')
      = (inserted slash_trie ''a/b'' (Some ''value1''), True, None)"
    by (simp add: trie_eval)
  show ?thesis
    using h Insert_overwrites [OF h, of "Some ''value2''"] by simp
qed

text \<open>
  C2. The claim is that an \<open>Insert\<close> rejected for a misplaced multi-level token leaves
  the trie unmodified. The check sits inside the loop that creates the nodes, so
  the segments before the misplaced token have their nodes created before the
  call returns the error: \<open>Insert("a#b", "value5")\<close> on the empty trie of
  \<open>TestInsertion\<close> returns \<open>false\<close> and an error, and leaves a node \<open>a\<close> with neither
  value nor children under the root.
\<close>

theorem Insert_rejected_creates_node:
  "root (New [WithSingleWild ''+'', WithMultiWild ''#''] :: string Trie) = Node [] None
   \<and> snd (Insert (New [WithSingleWild ''+'', WithMultiWild ''#'']) ''a#b'' (Some ''value5''))
       = (False, Some (insert_error (New [WithSingleWild ''+'', WithMultiWild ''#''] :: string Trie)))
   \<and> root (fst (Insert (New [WithSingleWild ''+'', WithMultiWild ''#'']) ''a#b'' (Some ''value5'')))
       = Node [(''a'', Node [] None)] None"
  by (simp add: trie_eval)

text \<open>
  The leftover node shows in later calls: \<open>Retrieve("a#b")\<close> found nothing before the
  rejected insert and reports the misplaced token after it, and \<open>Match("a")\<close> returned
  no match before and panics after it.
\<close>

lemma Insert_rejected_is_observable:
  "Retrieve (New [WithSingleWild ''+'', WithMultiWild ''#''] :: string Trie) ''a#b'' = (None, None)"
  "Retrieve (inserted (New [WithSingleWild ''+'', WithMultiWild ''#'']) ''a#b'' (Some ''value5'')) ''a#b''
     = (None, Some (retrieve_error (New [WithSingleWild ''+'', WithMultiWild ''#''] :: string Trie)))"
  "Match (New [WithSingleWild ''+'', WithMultiWild ''#''] :: string Trie) ''a'' = Inr []"
  "Match (inserted (New [WithSingleWild ''+'', WithMultiWild ''#'']) ''a#b'' (Some ''value5'')) ''a''
     = Inl IndexOutOfRange"
  by (simp_all add: trie_eval retrieve_error_def)

section \<open>Delete\<close>

lemma walk_None_iff: "walk n parts st = None \<longleftrightarrow> node_at n parts = None"
  by (induction parts arbitrary: n st) (auto split: option.splits)

lemma walk_Some_top:
  "walk n parts (n # st) = Some st' \<Longrightarrow> \<exists>rest. st' = the (node_at n parts) # rest"
  by (induction parts arbitrary: n st) (auto split: option.splits)

text \<open>
  C7. If the segment path of the key does not fully exist in the tree, or exists
  but ends in a node without a value, \<open>Delete(key)\<close> returns \<open>false\<close> and the trie
  is unchanged.
\<close>

theorem Delete_nothing_to_delete:
  assumes "node_at (root t) (Split key (separator t)) = None
             \<or> (\<exists>n. node_at (root t) (Split key (separator t)) = Some n \<and> val n = None)"
  shows "Delete t key = (t, False)"
proof (cases "walk (root t) (Split key (separator t)) [root t]")
  case None
  then show ?thesis by (simp add: Delete_def)
next
  case (Some st)
  then have ex: "node_at (root t) (Split key (separator t)) \<noteq> None"
    using walk_None_iff [of "root t" "Split key (separator t)" "[root t]"] by simp
  from walk_Some_top [OF Some] obtain rest
    where st: "st = the (node_at (root t) (Split key (separator t))) # rest" ..
  from assms ex have "val (the (node_at (root t) (Split key (separator t)))) = None"
    by auto
  then show ?thesis
    using Some st by (simp add: Delete_def)
qed

theorem Delete_nothing_to_delete_witness:
  "(node_at (root (inserted (slash_trie :: string Trie) ''a/b'' (Some ''value1'')))
        (Split ''a'' (separator (inserted (slash_trie :: string Trie) ''a/b'' (Some ''value1'')))) = None
     \<or> (\<exists>n. node_at (root (inserted (slash_trie :: string Trie) ''a/b'' (Some ''value1'')))
               (Split ''a'' (separator (inserted (slash_trie :: string Trie) ''a/b'' (Some ''value1''))))
             = Some n \<and> val n = None))
   \<and> Delete (inserted (slash_trie :: string Trie) ''a/b'' (Some ''value1'')) ''a''
       = (inserted slash_trie ''a/b'' (Some ''value1''), False)"
proof -
  let ?t = "inserted (slash_trie :: string Trie) ''a/b'' (Some ''value1'')"
  have h: "node_at (root ?t) (Split ''a'' (separator ?t)) = None
             \<or> (\<exists>n. node_at (root ?t) (Split ''a'' (separator ?t)) = Some n \<and> val n = None)"
    by (simp add: trie_eval)
  show ?thesis
    using h Delete_nothing_to_delete [OF h] by simp
qed

text \<open>
  The same deletion as a recursion over the segments: what the walk down and the
  climb back of \<open>Delete\<close> compute together, decided on the way back from the
  terminal node.
\<close>

fun delete_rec :: "string list \<Rightarrow> 'v Node \<Rightarrow> 'v Node option" where
  "delete_rec [] n = (if val n = None then None else Some (Node (children n) None))"
| "delete_rec (part # rest) n =
     (case map_of (children n) part of
        None \<Rightarrow> None
      | Some child \<Rightarrow>
          (case delete_rec rest child of
             None \<Rightarrow> None
           | Some child' \<Rightarrow>
               if val child' \<noteq> None \<or> children child' \<noteq> []
               then Some (Node (AList.update part child' (children n)) (val n))
               else Some (Node (AList.delete part (children n)) (val n))))"

lemma prune_kept: "children n \<noteq> [] \<Longrightarrow> prune n st rparts = relink n st rparts"
  by (cases st; cases rparts) simp_all

lemma prune_delete_rec:
  "(delete_rec parts n = None \<longrightarrow>
      (case walk n parts (n # st) of None \<Rightarrow> True | Some st' \<Rightarrow> val (hd st') = None))
   \<and> (\<forall>n'. delete_rec parts n = Some n' \<longrightarrow>
        (\<exists>m rest. walk n parts (n # st) = Some (m # rest) \<and> val m \<noteq> None
           \<and> prune (Node (children m) None) rest (rev parts @ rparts) = prune n' st rparts))"
proof (induction parts arbitrary: n st rparts)
  case Nil
  then show ?case by simp
next
  case (Cons part rest)
  show ?case
  proof (cases "map_of (children n) part")
    case None
    then show ?thesis by simp
  next
    case (Some child)
    note IH = Cons.IH [of child "n # st" "part # rparts"]
    show ?thesis
    proof (cases "delete_rec rest child")
      case None
      then show ?thesis using IH Some by simp
    next
      case (Some child')
      with IH obtain m rst where w: "walk child rest (child # n # st) = Some (m # rst)"
        and m: "val m \<noteq> None"
        and p: "prune (Node (children m) None) rst (rev rest @ part # rparts)
                  = prune child' (n # st) (part # rparts)"
        by auto
      have "prune child' (n # st) (part # rparts)
              = prune (the (delete_rec (part # rest) n)) st rparts"
        using Some \<open>map_of (children n) part = Some child\<close>
        by (simp add: prune_kept)
      then show ?thesis
        using w m p Some \<open>map_of (children n) part = Some child\<close> by simp
    qed
  qed
qed

lemma Delete_delete_rec:
  "Delete t key =
     (case delete_rec (Split key (separator t)) (root t) of
        None \<Rightarrow> (t, False)
      | Some r \<Rightarrow> (t\<lparr>root := r\<rparr>, True))"
proof (cases "delete_rec (Split key (separator t)) (root t)")
  case None
  then show ?thesis 
    using prune_delete_rec [of "Split key (separator t)" "root t" "[]" "[]"]
    by (auto simp: Delete_def split: option.splits list.splits)
next
  case (Some r)
  then show ?thesis
    using prune_delete_rec [of "Split key (separator t)" "root t" "[]" "[]"]
    by (auto simp: Delete_def split: option.splits list.splits)
qed

section \<open>The pruning invariant\<close>

lemma pruned_iff: "pruned n \<longleftrightarrow> (\<forall>kc \<in> set (children n). kept (snd kc) \<and> pruned (snd kc))"
  by (cases n) (simp add: list_all_iff)

lemma prunedI: "(\<And>k c. (k, c) \<in> set (children n) \<Longrightarrow> kept c \<and> pruned c) \<Longrightarrow> pruned n"
  by (subst pruned_iff) auto

lemma prunedD: "pruned n \<Longrightarrow> (k, c) \<in> set (children n) \<Longrightarrow> kept c \<and> pruned c"
  by (subst (asm) pruned_iff) auto

lemma set_update_subset: "set (AList.update k v al) \<subseteq> insert (k, v) (set al)"
  by (induction al) auto

lemma set_delete_subset: "set (AList.delete k al) \<subseteq> set al"
  by (induction al) auto

lemma pruned_update:
  assumes "pruned n" and "kept c" and "pruned c"
  shows "pruned (Node (AList.update k c (children n)) v)"
proof (rule prunedI)
  fix k' c'
  assume "(k', c') \<in> set (children (Node (AList.update k c (children n)) v))"
  then have "(k', c') = (k, c) \<or> (k', c') \<in> set (children n)"
    using set_update_subset [of k c "children n"] by auto
  then show "kept c' \<and> pruned c'"
    using assms prunedD [OF assms(1), of k' c'] by auto
qed

lemma pruned_delete:
  assumes "pruned n"
  shows "pruned (Node (AList.delete k (children n)) v)"
proof (rule prunedI)
  fix k' c'
  assume "(k', c') \<in> set (children (Node (AList.delete k (children n)) v))"
  then have "(k', c') \<in> set (children n)"
    using set_delete_subset [of k "children n"] by auto
  then show "kept c' \<and> pruned c'"
    by (rule prunedD [OF assms])
qed

lemma pruned_map_of: "pruned n \<Longrightarrow> map_of (children n) part = Some c \<Longrightarrow> pruned c"
  using prunedD [of n part c] by (auto dest: map_of_SomeD)

lemma pruned_child: "pruned n \<Longrightarrow> pruned (child_or_new n part)"
  by (auto simp: child_or_new_def split: option.splits dest: pruned_map_of)

lemma insert_loop_kept:
  "snd (insert_loop t (Some v) n parts) \<Longrightarrow> kept (fst (insert_loop t (Some v) n parts))"
  by (cases parts) (auto simp: insert_loop_Cons kept_def simp del: insert_loop.simps(2) split: if_splits)

lemma insert_loop_pruned:
  "pruned n \<Longrightarrow> snd (insert_loop t (Some v) n parts) \<Longrightarrow> pruned (fst (insert_loop t (Some v) n parts))"
proof (induction parts arbitrary: n)
  case Nil
  then show ?case by (cases n) simp
next
  case (Cons part rest)
  from Cons.prems have ok: "snd (insert_loop t (Some v) (child_or_new n part) rest)"
    and stepeq: "fst (insert_loop t (Some v) n (part # rest))
        = Node (AList.update part (fst (insert_loop t (Some v) (child_or_new n part) rest)) (children n)) (val n)"
    by (auto simp: insert_loop_Cons simp del: insert_loop.simps(2) split: if_splits)
  have "pruned (fst (insert_loop t (Some v) (child_or_new n part) rest))"
    using Cons.IH [OF pruned_child [OF Cons.prems(1)] ok] .
  then show ?case
    unfolding stepeq
    using pruned_update [OF Cons.prems(1) insert_loop_kept [OF ok]] by simp
qed

lemma delete_rec_pruned:
  "pruned n \<Longrightarrow> delete_rec parts n = Some n' \<Longrightarrow> pruned n'"
proof (induction parts arbitrary: n n')
  case Nil
  then show ?case by (cases n) (auto split: if_splits)
next
  case (Cons part rest)
  then show ?case
    by (auto simp: kept_def split: option.splits if_splits
             intro!: pruned_update pruned_delete dest: pruned_map_of)
qed

lemma apply_option_root: "root (apply_option opt t) = root t"
  by (cases opt) simp_all

lemma New_root: "root (New options :: 'v Trie) = Node [] None"
proof -
  have "root (fold apply_option options t) = root t" for t :: "'v Trie"
    by (induction options arbitrary: t) (simp_all add: apply_option_root)
  then show ?thesis by (simp add: New_def)
qed

text \<open>
  C4, as claimed: after every sequence of operations no node other than the root
  is without both value and children. \<open>Insert("a", nil)\<close> on an empty trie succeeds
  and leaves such a node.
\<close>

theorem pruning_broken_by_nil_insert:
  "\<not> pruned (root (inserted (slash_trie :: string Trie) ''a'' None))"
  by (simp add: trie_eval kept_def)

text \<open>
  C4, amended: after construction and every sequence of \<open>Insert\<close> calls that store a
  non-nil value and succeed, and of \<open>Retrieve\<close>, \<open>Match\<close> and \<open>Delete\<close> calls, no node
  other than the root is without both value and children.
\<close>

theorem pruning_invariant:
  assumes "stores_only t"
  shows "pruned (root t)"
  using assms
proof (induction rule: stores_only.induct)
  case (new options)
  show ?case by (simp add: New_root)
next
  case (insert t key v t' err)
  then show ?case
    using insert_loop_pruned [of "root t" t v "Split key (separator t)"]
    by (auto simp: Insert_def Let_def case_prod_beta)
next
  case (delete t key t' b)
  then show ?case
    using delete_rec_pruned [of "root t" "Split key (separator t)"]
    by (auto simp: Delete_delete_rec split: option.splits)
qed

theorem pruning_invariant_witness:
  "stores_only (fst (Delete (inserted (inserted (slash_trie :: string Trie)
       ''a/b'' (Some ''value1'')) ''a/b/c'' (Some ''value2'')) ''a/b/c''))
   \<and> pruned (root (fst (Delete (inserted (inserted (slash_trie :: string Trie)
       ''a/b'' (Some ''value1'')) ''a/b/c'' (Some ''value2'')) ''a/b/c'')))"
proof -
  let ?t1 = "inserted (slash_trie :: string Trie) ''a/b'' (Some ''value1'')"
  let ?t2 = "inserted ?t1 ''a/b/c'' (Some ''value2'')"
  have "stores_only (slash_trie :: string Trie)"
    unfolding slash_trie_def by (rule stores_only.new)
  moreover have "Insert (slash_trie :: string Trie) ''a/b'' (Some ''value1'') = (?t1, True, None)"
    by (simp add: trie_eval)
  ultimately have "stores_only ?t1"
    by (rule stores_only.insert)
  moreover have "Insert ?t1 ''a/b/c'' (Some ''value2'') = (?t2, True, None)"
    by (simp add: trie_eval)
  ultimately have "stores_only ?t2"
    by (rule stores_only.insert)
  moreover have "Delete ?t2 ''a/b/c'' = (fst (Delete ?t2 ''a/b/c''), snd (Delete ?t2 ''a/b/c''))"
    by simp
  ultimately have h: "stores_only (fst (Delete ?t2 ''a/b/c''))"
    by (rule stores_only.delete)
  show ?thesis
    using h pruning_invariant [OF h] by simp
qed

section \<open>Tries with unique child names\<close>

text \<open>
  A Go map holds one child for a name. The association lists of the tries that the
  operations build keep that property, and their root holds a value only when the
  separator is empty (only then can a key have no segment at all).
\<close>

fun distinct_keys :: "'v Node \<Rightarrow> bool" where
  "distinct_keys (Node cs v) \<longleftrightarrow>
     distinct (map fst cs) \<and> list_all (\<lambda>kc. distinct_keys (snd kc)) cs"

lemma distinct_keys_children:
  "distinct_keys n \<Longrightarrow> distinct (map fst (children n))"
  by (cases n) simp

lemma distinct_keys_child:
  "distinct_keys n \<Longrightarrow> (k, c) \<in> set (children n) \<Longrightarrow> distinct_keys c"
  by (cases n) (auto simp: list_all_iff)

lemma distinct_keys_map_of:
  "distinct_keys n \<Longrightarrow> map_of (children n) k = Some c \<Longrightarrow> distinct_keys c"
  by (auto dest: map_of_SomeD distinct_keys_child)

lemma distinct_keysI:
  "distinct (map fst (children n)) \<Longrightarrow> (\<And>k c. (k, c) \<in> set (children n) \<Longrightarrow> distinct_keys c)
     \<Longrightarrow> distinct_keys n"
  by (cases n) (auto simp: list_all_iff)

lemma child_lookup:
  "distinct_keys n \<Longrightarrow> (k, c) \<in> set (children n) \<Longrightarrow> map_of (children n) k = Some c"
  using distinct_keys_children [of n] by simp

lemma distinct_keys_update:
  assumes "distinct_keys n" and "distinct_keys c"
  shows "distinct_keys (Node (AList.update k c (children n)) v)"
proof (rule distinct_keysI)
  show "distinct (map fst (children (Node (AList.update k c (children n)) v)))"
    using distinct_keys_children [OF assms(1)] by (simp add: distinct_update)
next
  fix k' c'
  assume "(k', c') \<in> set (children (Node (AList.update k c (children n)) v))"
  then have "(k', c') = (k, c) \<or> (k', c') \<in> set (children n)"
    using set_update_subset [of k c "children n"] by auto
  then show "distinct_keys c'"
    using assms distinct_keys_child [OF assms(1), of k' c'] by auto
qed

lemma distinct_keys_delete:
  assumes "distinct_keys n"
  shows "distinct_keys (Node (AList.delete k (children n)) v)"
proof (rule distinct_keysI)
  show "distinct (map fst (children (Node (AList.delete k (children n)) v)))"
    using distinct_keys_children [OF assms] by (simp add: distinct_delete)
next
  fix k' c'
  assume "(k', c') \<in> set (children (Node (AList.delete k (children n)) v))"
  then have "(k', c') \<in> set (children n)"
    using set_delete_subset [of k "children n"] by auto
  then show "distinct_keys c'"
    by (rule distinct_keys_child [OF assms])
qed

lemma distinct_keys_child_or_new: "distinct_keys n \<Longrightarrow> distinct_keys (child_or_new n part)"
  by (auto simp: child_or_new_def split: option.splits dest: distinct_keys_map_of)

lemma insert_loop_distinct_keys:
  "distinct_keys n \<Longrightarrow> distinct_keys (fst (insert_loop t v n parts))"
proof (induction parts arbitrary: n)
  case Nil
  then show ?case by (cases n) simp
next
  case (Cons part rest)
  show ?case
  proof (cases "isMWild t \<and> part = multiWild t \<and> rest \<noteq> []")
    case True
    then show ?thesis
      using Cons.prems by (simp add: insert_loop_Cons del: insert_loop.simps(2))
  next
    case False
    have "distinct_keys (Node (AList.update part
            (fst (insert_loop t v (child_or_new n part) rest)) (children n)) (val n))"
      using Cons.prems Cons.IH [OF distinct_keys_child_or_new [OF Cons.prems], of part]
      by (rule distinct_keys_update)
    moreover have "fst (insert_loop t v n (part # rest))
        = Node (AList.update part (fst (insert_loop t v (child_or_new n part) rest)) (children n)) (val n)"
      using False by (auto simp: insert_loop_Cons simp del: insert_loop.simps(2))
    ultimately show ?thesis
      by simp
  qed
qed

lemma delete_rec_distinct_keys:
  "distinct_keys n \<Longrightarrow> delete_rec parts n = Some n' \<Longrightarrow> distinct_keys n'"
proof (induction parts arbitrary: n n')
  case Nil
  then show ?case by (cases n) (auto split: if_splits)
next
  case (Cons part rest)
  then show ?case
    by (auto split: option.splits if_splits
             intro!: distinct_keys_update distinct_keys_delete dest: distinct_keys_map_of)
qed

lemma split_sep_not_Nil: "split_sep sep acc s \<noteq> []"
  by (induction sep acc s rule: split_sep.induct) auto

lemma Split_Nil: "Split key sep = [] \<Longrightarrow> sep = []"
  by (auto simp: Split_def split_sep_not_Nil split: if_splits)

lemma insert_loop_val: "parts \<noteq> [] \<Longrightarrow> val (fst (insert_loop t v n parts)) = val n"
  by (cases parts) (simp_all add: insert_loop_Cons del: insert_loop.simps(2))

lemma delete_rec_val: "delete_rec parts n = Some n' \<Longrightarrow> val n' = None \<or> val n' = val n"
  by (cases parts) (auto split: option.splits if_splits)

definition well_formed :: "'v Trie \<Rightarrow> bool" where
  "well_formed t \<longleftrightarrow> distinct_keys (root t) \<and> (val (root t) = None \<or> separator t = [])"

lemma reachable_well_formed:
  assumes "reachable t"
  shows "well_formed t"
  using assms
proof (induction rule: reachable.induct)
  case (new options)
  show ?case by (simp add: well_formed_def New_root)
next
  case (insert t key v t' ok err)
  let ?parts = "Split key (separator t)"
  from insert.hyps(2) have t': "t' = t\<lparr>root := fst (insert_loop t v (root t) ?parts)\<rparr>"
    by (auto simp: Insert_def Let_def case_prod_beta)
  have "distinct_keys (root t')"
    using insert.IH by (simp add: t' well_formed_def insert_loop_distinct_keys)
  moreover have "val (root t') = None \<or> separator t' = []"
  proof (cases "?parts = []")
    case True
    then show ?thesis using Split_Nil [of key "separator t"] by (simp add: t')
  next
    case False
    then show ?thesis using insert.IH by (auto simp: t' well_formed_def insert_loop_val)
  qed
  ultimately show ?case by (simp add: well_formed_def)
next
  case (delete t key t' b)
  show ?case
  proof (cases "delete_rec (Split key (separator t)) (root t)")
    case None
    then show ?thesis using delete by (simp add: Delete_delete_rec)
  next
    case (Some r)
    then have t': "t' = t\<lparr>root := r\<rparr>"
      using delete.hyps(2) by (simp add: Delete_delete_rec)
    show ?thesis
      using delete.IH delete_rec_distinct_keys [OF _ Some] delete_rec_val [OF Some]
      by (auto simp: t' well_formed_def)
  qed
qed

section \<open>One iteration of the loop of Match\<close>

text \<open>The stack entries that one iteration pushes for the popped entry.\<close>

definition pushed :: "'v Trie \<Rightarrow> string list \<Rightarrow> 'v Node \<Rightarrow> nat \<Rightarrow> string \<Rightarrow> 'v stackNode list" where
  "pushed t parts n i keypart =
     (if multi_dispatch t parts i then []
      else if single_dispatch t parts i then fst (single_branch t parts n i keypart ([], []))
      else fst (literal_branch t parts n i keypart ([], [])))"

text \<open>
  Both traversals only ever append to \<open>matches\<close> and push on the stack, so what an
  iteration adds does not depend on what is already there.
\<close>

lemma collect_loop_append:
  "collect_loop sep stack matches = matches @ collect_loop sep stack []"
proof (induction "stack_weight stack" arbitrary: stack matches rule: less_induct)
  case less
  show ?case
  proof (cases stack)
    case Nil
    then show ?thesis by simp
  next
    case (Cons f rest)
    obtain n i keypart where f: "f = (n, i, keypart)"
      by (cases f) auto
    let ?st = "push_children sep keypart (children n) rest"
    let ?new = "if val n \<noteq> None then [\<lparr>Key = keypart, Value = val n\<rparr>] else []"
    have lt: "stack_weight ?st < stack_weight stack"
      using weight_children [of n]
      by (simp add: Cons f stack_weight_push_children) (simp add: stack_weight_def)
    have "collect_loop sep stack matches = collect_loop sep ?st (matches @ ?new)"
      by (simp add: Cons f)
    also have "\<dots> = (matches @ ?new) @ collect_loop sep ?st []"
      by (rule less(1) [OF lt])
    also have "\<dots> = matches @ collect_loop sep ?st ?new"
      using less(1) [OF lt, of ?new] by simp
    also have "collect_loop sep ?st ?new = collect_loop sep stack []"
      by (simp add: Cons f)
    finally show ?thesis .
  qed
qed

lemma single_step_append:
  "single_step t parts i keypart kc (stack, matches)
     = (fst (single_step t parts i keypart kc ([], [])) @ stack,
        matches @ snd (single_step t parts i keypart kc ([], [])))"
  by (cases kc) simp

lemma fold_single_step_append:
  "fold (single_step t parts i keypart) cs (stack, matches)
     = (fst (fold (single_step t parts i keypart) cs ([], [])) @ stack,
        matches @ snd (fold (single_step t parts i keypart) cs ([], [])))"
proof (induction cs arbitrary: stack matches rule: rev_induct)
  case Nil
  show ?case by simp
next
  case (snoc kc cs)
  obtain A B where AB: "fold (single_step t parts i keypart) cs ([], []) = (A, B)"
    by (cases "fold (single_step t parts i keypart) cs ([], [])") auto
  have "fold (single_step t parts i keypart) (cs @ [kc]) (stack, matches)
          = single_step t parts i keypart kc (A @ stack, matches @ B)"
    by (simp add: snoc [of stack matches] AB)
  also have "\<dots> = (fst (single_step t parts i keypart kc ([], [])) @ A @ stack,
                    matches @ B @ snd (single_step t parts i keypart kc ([], [])))"
    by (subst single_step_append) simp
  also have "\<dots> = (fst (single_step t parts i keypart kc (A, B)) @ stack,
                    matches @ snd (single_step t parts i keypart kc (A, B)))"
    by (subst (3 4) single_step_append) simp
  finally show ?case by (simp add: AB)
qed

lemma single_branch_append:
  "single_branch t parts n i keypart (stack, matches)
     = (fst (single_branch t parts n i keypart ([], [])) @ stack,
        matches @ snd (single_branch t parts n i keypart ([], [])))"
  unfolding single_branch_def by (rule fold_single_step_append)

lemma descend_append:
  "descend t parts n i keypart k (stack, matches)
     = (fst (descend t parts n i keypart k ([], [])) @ stack,
        matches @ snd (descend t parts n i keypart k ([], [])))"
  by (auto simp: descend_def split: option.splits)

lemma multi_child_append:
  "multi_child t n keypart (stack, matches)
     = (stack, matches @ snd (multi_child t n keypart ([], [])))"
  by (auto simp: multi_child_def split: option.splits)

lemma literal_branch_append:
  "literal_branch t parts n i keypart (stack, matches)
     = (fst (literal_branch t parts n i keypart ([], [])) @ stack,
        matches @ snd (literal_branch t parts n i keypart ([], [])))"
proof -
  define A1 where "A1 = fst (descend t parts n i keypart (parts ! i) ([], []))"
  define B1 where "B1 = snd (descend t parts n i keypart (parts ! i) ([], []))"
  define A2 where "A2 = fst (descend t parts n i keypart (singleWild t) ([], []))"
  define B2 where "B2 = snd (descend t parts n i keypart (singleWild t) ([], []))"
  define B3 where "B3 = snd (multi_child t n keypart ([], []))"
  have d1: "descend t parts n i keypart (parts ! i) (st, ms) = (A1 @ st, ms @ B1)" for st ms
    unfolding A1_def B1_def by (rule descend_append)
  have d2: "descend t parts n i keypart (singleWild t) (st, ms) = (A2 @ st, ms @ B2)" for st ms
    unfolding A2_def B2_def by (rule descend_append)
  have m: "multi_child t n keypart (st, ms) = (st, ms @ B3)" for st ms
    unfolding B3_def by (rule multi_child_append)
  show ?thesis
    by (simp add: literal_branch_def Let_def d1 d2 m)
qed

lemma match_loop_step:
  "match_loop t parts ((n, i, keypart) # stack) matches =
     (if length parts \<le> i then Inl IndexOutOfRange
      else match_loop t parts (pushed t parts n i keypart @ stack)
             (matches @ emitted t parts n i keypart))"
proof -
  have c: "collectAll n keypart matches (separator t)
             = matches @ collectAll n keypart [] (separator t)"
    unfolding collectAll_def by (rule collect_loop_append)
  show ?thesis
    by (subst match_loop.simps)
       (simp add: pushed_def emitted_def multi_dispatch_def single_dispatch_def Let_def c
          single_branch_append [of t parts n i keypart stack matches]
          literal_branch_append [of t parts n i keypart stack matches])
qed

lemma stack_weight_append: "stack_weight (xs @ ys) = stack_weight xs + stack_weight ys"
  by (simp add: stack_weight_def)

lemma stack_weight_pushed:
  "stack_weight (pushed t parts n i keypart) < weight n"
proof -
  have "stack_weight (fst (single_branch t parts n i keypart ([], []))) < weight n"
    using stack_weight_single_branch [of t parts i keypart "children n" "([], [])"]
      weight_children [of n]
    by (simp add: single_branch_def stack_weight_def)
  moreover have "stack_weight (fst (literal_branch t parts n i keypart ([], []))) < weight n"
    if "isSWild t \<longrightarrow> parts ! i \<noteq> singleWild t"
    using stack_weight_literal_branch [OF that, of n keypart "([], [])"] weight_children [of n]
    by (simp add: stack_weight_def)
  moreover have "0 < weight n"
    by (cases n) simp
  ultimately show ?thesis
    by (auto simp: pushed_def single_dispatch_def multi_dispatch_def stack_weight_def)
qed

lemma node_at_append:
  "node_at n (p @ q) = (case node_at n p of None \<Rightarrow> None | Some m \<Rightarrow> node_at m q)"
  by (induction p arbitrary: n) (auto split: option.splits)

lemma node_at_snoc:
  "node_at n p = Some m \<Longrightarrow> node_at n (p @ [k]) = map_of (children m) k"
  by (simp add: node_at_append split: option.splits)

lemma node_at_distinct_keys:
  "distinct_keys n \<Longrightarrow> node_at n p = Some m \<Longrightarrow> distinct_keys m"
  by (induction p arbitrary: n) (auto split: option.splits dest: distinct_keys_map_of)

lemma keypart_of_append: "keypart_of sep (p @ q) = keypart_of sep p @ keypart_of sep q"
  by (simp add: keypart_of_def)

lemma keypart_of_snoc: "keypart_of sep (p @ [k]) = keypart_of sep p @ k @ sep"
  by (simp add: keypart_of_def)

lemma join_snoc: "join sep (p @ [k]) = keypart_of sep p @ k"
  by (induction sep p rule: join.induct) (simp_all add: keypart_of_def)

lemma keypart_of_join: "p \<noteq> [] \<Longrightarrow> keypart_of sep p = join sep p @ sep"
  by (induction sep p rule: join.induct) (simp_all add: keypart_of_def)

lemma single_step_collects:
  "kv \<in> set (snd (single_step t parts i keypart kc ([], []))) \<longleftrightarrow>
     Suc i = length parts \<and> val (snd kc) \<noteq> None
       \<and> kv = \<lparr>Key = keypart @ fst kc, Value = val (snd kc)\<rparr>"
  by (cases kc) auto

lemma single_step_pushes:
  "f \<in> set (fst (single_step t parts i keypart kc ([], []))) \<longleftrightarrow>
     Suc i < length parts \<and> f = (snd kc, Suc i, keypart @ fst kc @ separator t)"
  by (cases kc) auto

lemma fold_single_step_collects:
  "kv \<in> set (snd (fold (single_step t parts i keypart) cs ([], []))) \<longleftrightarrow>
     (\<exists>kc \<in> set cs. Suc i = length parts \<and> val (snd kc) \<noteq> None
        \<and> kv = \<lparr>Key = keypart @ fst kc, Value = val (snd kc)\<rparr>)"
proof (induction cs rule: rev_induct)
  case Nil
  show ?case by simp
next
  case (snoc kc cs)
  obtain A B where AB: "fold (single_step t parts i keypart) cs ([], []) = (A, B)"
    by (cases "fold (single_step t parts i keypart) cs ([], [])") auto
  have "snd (fold (single_step t parts i keypart) (cs @ [kc]) ([], []))
          = B @ snd (single_step t parts i keypart kc ([], []))"
    by (simp add: AB single_step_append [of t parts i keypart kc A B])
  then show ?case
    using snoc single_step_collects [of kv t parts i keypart kc] by (auto simp: AB)
qed

lemma fold_single_step_pushes:
  "f \<in> set (fst (fold (single_step t parts i keypart) cs ([], []))) \<longleftrightarrow>
     (\<exists>kc \<in> set cs. Suc i < length parts \<and> f = (snd kc, Suc i, keypart @ fst kc @ separator t))"
proof (induction cs rule: rev_induct)
  case Nil
  show ?case by simp
next
  case (snoc kc cs)
  obtain A B where AB: "fold (single_step t parts i keypart) cs ([], []) = (A, B)"
    by (cases "fold (single_step t parts i keypart) cs ([], [])") auto
  have "fst (fold (single_step t parts i keypart) (cs @ [kc]) ([], []))
          = fst (single_step t parts i keypart kc ([], [])) @ A"
    by (simp add: AB single_step_append [of t parts i keypart kc A B])
  then show ?case
    using snoc single_step_pushes [of f t parts i keypart kc] by (auto simp: AB)
qed

lemma descend_collects:
  "kv \<in> set (snd (descend t parts n i keypart k ([], []))) \<longleftrightarrow>
     (\<exists>c. map_of (children n) k = Some c \<and> Suc i = length parts \<and> val c \<noteq> None
        \<and> kv = \<lparr>Key = keypart @ k, Value = val c\<rparr>)"
  by (auto simp: descend_def split: option.splits)

lemma descend_pushes:
  "f \<in> set (fst (descend t parts n i keypart k ([], []))) \<longleftrightarrow>
     (\<exists>c. map_of (children n) k = Some c \<and> \<not> (Suc i = length parts \<and> val c \<noteq> None)
        \<and> f = (c, Suc i, keypart @ k @ separator t))"
  by (auto simp: descend_def split: option.splits)

lemma multi_child_collects:
  "kv \<in> set (snd (multi_child t n keypart ([], []))) \<longleftrightarrow>
     (\<exists>c. map_of (children n) (multiWild t) = Some c
        \<and> kv = \<lparr>Key = keypart @ multiWild t, Value = val c\<rparr>)"
  by (auto simp: multi_child_def split: option.splits)

lemma literal_branch_collects:
  "kv \<in> set (snd (literal_branch t parts n i keypart ([], []))) \<longleftrightarrow>
     kv \<in> set (snd (descend t parts n i keypart (parts ! i) ([], [])))
     \<or> (isSWild t \<and> kv \<in> set (snd (descend t parts n i keypart (singleWild t) ([], []))))
     \<or> (isMWild t \<and> kv \<in> set (snd (multi_child t n keypart ([], []))))"
proof -
  define A1 where "A1 = fst (descend t parts n i keypart (parts ! i) ([], []))"
  define B1 where "B1 = snd (descend t parts n i keypart (parts ! i) ([], []))"
  define A2 where "A2 = fst (descend t parts n i keypart (singleWild t) ([], []))"
  define B2 where "B2 = snd (descend t parts n i keypart (singleWild t) ([], []))"
  define B3 where "B3 = snd (multi_child t n keypart ([], []))"
  have d1: "descend t parts n i keypart (parts ! i) (st, ms) = (A1 @ st, ms @ B1)" for st ms
    unfolding A1_def B1_def by (rule descend_append)
  have d2: "descend t parts n i keypart (singleWild t) (st, ms) = (A2 @ st, ms @ B2)" for st ms
    unfolding A2_def B2_def by (rule descend_append)
  have m: "multi_child t n keypart (st, ms) = (st, ms @ B3)" for st ms
    unfolding B3_def by (rule multi_child_append)
  have "snd (literal_branch t parts n i keypart ([], []))
          = B1 @ (if isSWild t then B2 else []) @ (if isMWild t then B3 else [])"
    by (simp add: literal_branch_def Let_def d1 d2 m)
  then show ?thesis
    by (auto simp: B1_def B2_def B3_def)
qed

lemma literal_branch_pushes:
  "f \<in> set (fst (literal_branch t parts n i keypart ([], []))) \<longleftrightarrow>
     f \<in> set (fst (descend t parts n i keypart (parts ! i) ([], [])))
     \<or> (isSWild t \<and> f \<in> set (fst (descend t parts n i keypart (singleWild t) ([], []))))"
proof -
  define A1 where "A1 = fst (descend t parts n i keypart (parts ! i) ([], []))"
  define B1 where "B1 = snd (descend t parts n i keypart (parts ! i) ([], []))"
  define A2 where "A2 = fst (descend t parts n i keypart (singleWild t) ([], []))"
  define B2 where "B2 = snd (descend t parts n i keypart (singleWild t) ([], []))"
  define B3 where "B3 = snd (multi_child t n keypart ([], []))"
  have d1: "descend t parts n i keypart (parts ! i) (st, ms) = (A1 @ st, ms @ B1)" for st ms
    unfolding A1_def B1_def by (rule descend_append)
  have d2: "descend t parts n i keypart (singleWild t) (st, ms) = (A2 @ st, ms @ B2)" for st ms
    unfolding A2_def B2_def by (rule descend_append)
  have m: "multi_child t n keypart (st, ms) = (st, ms @ B3)" for st ms
    unfolding B3_def by (rule multi_child_append)
  have "fst (literal_branch t parts n i keypart ([], []))
          = (if isSWild t then A2 else []) @ A1"
    by (simp add: literal_branch_def Let_def d1 d2 m)
  then show ?thesis
    by (auto simp: A1_def A2_def)
qed

section \<open>The results of Match\<close>

lemma set_push_children:
  "set (push_children sep keypart cs stack)
     = (\<lambda>kc. (snd kc, 0, keypart @ fst kc @ sep)) ` set cs \<union> set stack"
  unfolding push_children_def
  by (induction cs arbitrary: stack) auto

lemma collect_loop_sound:
  assumes "\<forall>f \<in> set stack. distinct_keys (fst f)"
    and "kv \<in> set (collect_loop sep stack [])"
  shows "\<exists>f \<in> set stack. \<exists>q m. node_at (fst f) q = Some m \<and> val m \<noteq> None
           \<and> kv = \<lparr>Key = snd (snd f) @ keypart_of sep q, Value = val m\<rparr>"
  using assms
proof (induction "stack_weight stack" arbitrary: stack rule: less_induct)
  case less
  show ?case
  proof (cases stack)
    case Nil
    then show ?thesis using less.prems by simp
  next
    case (Cons f rest)
    obtain n i keypart where f: "f = (n, i, keypart)"
      by (cases f) auto
    let ?st = "push_children sep keypart (children n) rest"
    let ?new = "if val n \<noteq> None then [\<lparr>Key = keypart, Value = val n\<rparr>] else []"
    have lt: "stack_weight ?st < stack_weight stack"
      using weight_children [of n]
      by (simp add: Cons f stack_weight_push_children) (simp add: stack_weight_def)
    have dn: "distinct_keys n"
      using less.prems(1) by (simp add: Cons f)
    have dst: "\<forall>g \<in> set ?st. distinct_keys (fst g)"
      using less.prems(1) dn by (auto simp: set_push_children Cons f dest: distinct_keys_child)
    have "collect_loop sep stack [] = collect_loop sep ?st ?new"
      by (simp add: Cons f)
    also have "\<dots> = ?new @ collect_loop sep ?st []"
      by (rule collect_loop_append)
    finally have "collect_loop sep stack [] = ?new @ collect_loop sep ?st []" .
    with less.prems(2) consider "kv \<in> set ?new" | "kv \<in> set (collect_loop sep ?st [])"
      by auto
    then show ?thesis
    proof cases
      case 1
      then have "node_at n [] = Some n \<and> val n \<noteq> None
                   \<and> kv = \<lparr>Key = keypart @ keypart_of sep [], Value = val n\<rparr>"
        by (auto simp: keypart_of_def split: if_splits)
      then show ?thesis
        unfolding Cons f by (intro bexI [of _ "(n, i, keypart)"] exI) auto
    next
      case 2
      from less.hyps [OF lt dst 2] obtain g q m
        where g: "g \<in> set ?st" and q: "node_at (fst g) q = Some m" and m: "val m \<noteq> None"
          and kv: "kv = \<lparr>Key = snd (snd g) @ keypart_of sep q, Value = val m\<rparr>"
        by blast
      from g consider "g \<in> set rest"
        | k c where "(k, c) \<in> set (children n)" "g = (c, 0, keypart @ k @ sep)"
        by (auto simp: set_push_children)
      then show ?thesis
      proof cases
        case 1
        then have "g \<in> set stack" by (simp add: Cons)
        then show ?thesis using q m kv by blast
      next
        case 2
        have "node_at n (k # q) = Some m"
          using child_lookup [OF dn 2(1)] q 2(2) by simp
        moreover have "kv = \<lparr>Key = keypart @ keypart_of sep (k # q), Value = val m\<rparr>"
          using kv 2(2) by (simp add: keypart_of_def)
        ultimately show ?thesis
          using m unfolding Cons f by (intro bexI [of _ "(n, i, keypart)"] exI) auto
      qed
    qed
  qed
qed

lemma collectAll_sound:
  assumes "distinct_keys n" and "kv \<in> set (collectAll n keypart [] sep)"
  shows "\<exists>q m. node_at n q = Some m \<and> val m \<noteq> None
           \<and> kv = \<lparr>Key = keypart @ keypart_of sep q, Value = val m\<rparr>"
  using collect_loop_sound [of "[(n, 0, keypart)]" kv sep] assms
  by (simp add: collectAll_def)

lemma pushed_frames:
  assumes "distinct_keys (root t)" and "node_at (root t) path = Some n"
    and "f \<in> set (pushed t parts n (length path) (keypart_of (separator t) path))"
  shows "\<exists>k c. node_at (root t) (path @ [k]) = Some c
           \<and> f = (c, length (path @ [k]), keypart_of (separator t) (path @ [k]))"
proof -
  have dn: "distinct_keys n"
    by (rule node_at_distinct_keys [OF assms(1,2)])
  from assms(3) have "\<exists>k c. map_of (children n) k = Some c
      \<and> f = (c, Suc (length path), keypart_of (separator t) path @ k @ separator t)"
    by (auto simp: pushed_def single_branch_def fold_single_step_pushes literal_branch_pushes
          descend_pushes split: if_splits dest: child_lookup [OF dn])
  then show ?thesis
    using node_at_snoc [OF assms(2)] by (auto simp: keypart_of_snoc)
qed

lemma match_loop_results:
  assumes "distinct_keys (root t)"
    and "match_loop t parts stack matches = Inr ms"
    and "\<forall>f \<in> set stack. \<exists>path. node_at (root t) path = Some (fst f)
            \<and> snd f = (length path, keypart_of (separator t) path)"
    and "kv \<in> set ms"
  shows "kv \<in> set matches \<or> (\<exists>path. produced_at t parts path kv)"
  using assms(2-)
proof (induction "stack_weight stack" arbitrary: stack matches rule: less_induct)
  case less
  show ?case
  proof (cases stack)
    case Nil
    then show ?thesis using less.prems by simp
  next
    case (Cons f rest)
    obtain n i keypart where f: "f = (n, i, keypart)"
      by (cases f) auto
    from less.prems(2) obtain path where path: "node_at (root t) path = Some n"
      and i: "i = length path" and kp: "keypart = keypart_of (separator t) path"
      by (auto simp: Cons f)
    let ?st = "pushed t parts n i keypart @ rest"
    let ?ms = "matches @ emitted t parts n i keypart"
    from less.prems(1) have inr: "\<not> length parts \<le> i" and run: "match_loop t parts ?st ?ms = Inr ms"
      by (auto simp: Cons f match_loop_step simp del: match_loop.simps split: if_splits)
    have lt: "stack_weight ?st < stack_weight stack"
      using stack_weight_pushed [of t parts n i keypart]
      by (simp add: Cons f stack_weight_append) (simp add: stack_weight_def)
    have frames: "\<forall>g \<in> set ?st. \<exists>path. node_at (root t) path = Some (fst g)
            \<and> snd g = (length path, keypart_of (separator t) path)"
    proof
      fix g assume "g \<in> set ?st"
      then consider "g \<in> set (pushed t parts n (length path) (keypart_of (separator t) path))"
        | "g \<in> set rest"
        by (auto simp: i kp)
      then show "\<exists>path. node_at (root t) path = Some (fst g)
            \<and> snd g = (length path, keypart_of (separator t) path)"
      proof cases
        case 1
        from pushed_frames [OF assms(1) path 1] show ?thesis
          by (metis fst_conv snd_conv)
      next
        case 2
        then show ?thesis using less.prems(2) by (simp add: Cons)
      qed
    qed
    from less.hyps [OF lt run frames less.prems(3)]
    consider "kv \<in> set matches" | "kv \<in> set (emitted t parts n i keypart)"
      | "\<exists>path. produced_at t parts path kv"
      by auto
    then show ?thesis
    proof cases
      case 2
      then have "produced_at t parts path kv"
        using path inr by (simp add: produced_at_def i kp)
      then show ?thesis by blast
    qed auto
  qed
qed

lemma Match_results_produced:
  assumes "distinct_keys (root t)" and "Match t key = Inr ms" and "kv \<in> set ms"
  shows "\<exists>path. produced_at t (Split key (separator t)) path kv"
  using match_loop_results [OF assms(1), of "Split key (separator t)" "[(root t, 0, [])]" "[]" ms kv]
    assms(2,3)
  by (simp add: Match_def keypart_of_def)

lemma reachable_inserted: "reachable t \<Longrightarrow> reachable (inserted t key v)"
proof -
  assume r: "reachable t"
  have "Insert t key v = (inserted t key v, fst (snd (Insert t key v)), snd (snd (Insert t key v)))"
    by (simp add: inserted_def)
  with r show ?thesis by (rule reachable.insert)
qed

lemma reachable_slash_trie: "reachable slash_trie"
  unfolding slash_trie_def by (rule reachable.new)

lemma produced_key_shape:
  assumes wf: "well_formed t" and p: "produced_at t parts path kv"
  shows "\<exists>q m. node_at (root t) q = Some m \<and> val m = Value kv
           \<and> Key kv = (if multi_dispatch t parts (length path)
                       then join (separator t) q @ separator t
                       else join (separator t) q)"
proof -
  let ?sep = "separator t"
  from p obtain n where n: "node_at (root t) path = Some n"
    and em: "kv \<in> set (emitted t parts n (length path) (keypart_of ?sep path))"
    by (auto simp: produced_at_def split: option.splits)
  have dr: "distinct_keys (root t)"
    using wf by (simp add: well_formed_def)
  have dn: "distinct_keys n"
    by (rule node_at_distinct_keys [OF dr n])
  show ?thesis
  proof (cases "multi_dispatch t parts (length path)")
    case True
    with em have "kv \<in> set (collectAll n (keypart_of ?sep path) [] ?sep)"
      by (simp add: emitted_def)
    from collectAll_sound [OF dn this] obtain q m
      where q: "node_at n q = Some m" and m: "val m \<noteq> None"
        and kv: "kv = \<lparr>Key = keypart_of ?sep path @ keypart_of ?sep q, Value = val m\<rparr>"
      by blast
    have at: "node_at (root t) (path @ q) = Some m"
      using n q by (simp add: node_at_append)
    have "keypart_of ?sep (path @ q) = join ?sep (path @ q) @ ?sep"
    proof (cases "path @ q = []")
      case True
      then have "m = root t" using at by simp
      then have "?sep = []" using m wf by (auto simp: well_formed_def)
      then show ?thesis using True by (simp add: keypart_of_def)
    next
      case False
      then show ?thesis by (rule keypart_of_join)
    qed
    then have "Key kv = join ?sep (path @ q) @ ?sep"
      by (simp add: kv keypart_of_append)
    then show ?thesis
      using True at kv by (intro exI [of _ "path @ q"] exI [of _ m]) simp
  next
    case False
    from em False have "\<exists>k c. map_of (children n) k = Some c
        \<and> kv = \<lparr>Key = keypart_of ?sep path @ k, Value = val c\<rparr>"
      by (auto simp: emitted_def single_branch_def fold_single_step_collects
            literal_branch_collects descend_collects multi_child_collects
            split: if_splits dest: child_lookup [OF dn])
    then obtain k c where c: "map_of (children n) k = Some c"
      and kv: "kv = \<lparr>Key = keypart_of ?sep path @ k, Value = val c\<rparr>"
      by blast
    have "node_at (root t) (path @ [k]) = Some c"
      using node_at_snoc [OF n] c by simp
    then show ?thesis
      using False kv by (intro exI [of _ "path @ [k]"] exI [of _ c]) (simp add: join_snoc)
  qed
qed

text \<open>
  C9. In a trie built by the operations, every pair that \<open>Match\<close> returns is produced
  by the iteration for some node of the tree. A pair produced where the pattern
  segment is the multi-level wildcard (the subtree collection of \<open>collectAll\<close>) has as
  its key the key of the node holding its value followed by one more separator;
  a pair produced by the single-level or the literal branch has exactly the key of
  that node.
\<close>

theorem Match_key_shape:
  assumes "reachable t" and "Match t key = Inr ms" and "kv \<in> set ms"
  shows "(\<exists>path. produced_at t (Split key (separator t)) path kv)
    \<and> (\<forall>path. produced_at t (Split key (separator t)) path kv \<longrightarrow>
          (\<exists>q m. node_at (root t) q = Some m \<and> val m = Value kv
             \<and> Key kv = (if multi_dispatch t (Split key (separator t)) (length path)
                         then join (separator t) q @ separator t
                         else join (separator t) q)))"
proof -
  have wf: "well_formed t"
    by (rule reachable_well_formed [OF assms(1)])
  then have "distinct_keys (root t)"
    by (simp add: well_formed_def)
  from Match_results_produced [OF this assms(2,3)] produced_key_shape [OF wf]
  show ?thesis by blast
qed

lemmas claim_eval = emitted_def produced_at_def multi_dispatch_def single_dispatch_def
  literal_dispatch_def keypart_of_def matching_trie_def

theorem Match_key_shape_witness:
  "reachable (matching_trie ''value1'' ''value2'' ''value3'')
   \<and> Match (matching_trie ''value1'' ''value2'' ''value3'') ''a/b/+/#''
       = Inr [\<lparr>Key = ''a/b/c/f/'', Value = Some ''value3''\<rparr>,
              \<lparr>Key = ''a/b/c/d/'', Value = Some ''value2''\<rparr>,
              \<lparr>Key = ''a/b/d/#/'', Value = Some ''value1''\<rparr>]
   \<and> produced_at (matching_trie ''value1'' ''value2'' ''value3'') [''a'', ''b'', ''+'', ''#'']
         [''a'', ''b'', ''c''] \<lparr>Key = ''a/b/c/d/'', Value = Some ''value2''\<rparr>
   \<and> (\<exists>q m. node_at (root (matching_trie ''value1'' ''value2'' ''value3'')) q = Some m
          \<and> val m = Some ''value2'' \<and> ''a/b/c/d/'' = join ''/'' q @ ''/'')"
proof -
  let ?t = "matching_trie ''value1'' ''value2'' ''value3'' :: string Trie"
  let ?kv = "\<lparr>Key = ''a/b/c/d/'', Value = Some ''value2''\<rparr>"
  have r: "reachable ?t"
    unfolding matching_trie_def by (intro reachable_inserted reachable_slash_trie)
  have m: "Match ?t ''a/b/+/#''
       = Inr [\<lparr>Key = ''a/b/c/f/'', Value = Some ''value3''\<rparr>, ?kv,
              \<lparr>Key = ''a/b/d/#/'', Value = Some ''value1''\<rparr>]"
    by (simp add: trie_eval matching_trie_def)
  have s: "Split ''a/b/+/#'' ''/'' = [''a'', ''b'', ''+'', ''#'']"
    by (simp add: Split_def)
  have p: "produced_at ?t [''a'', ''b'', ''+'', ''#''] [''a'', ''b'', ''c''] ?kv"
    by (simp add: trie_eval claim_eval)
  have d: "multi_dispatch ?t [''a'', ''b'', ''+'', ''#''] (length [''a'', ''b'', ''c''])"
    and sep: "separator ?t = ''/''"
    by (simp_all add: trie_eval claim_eval)
  have "?kv \<in> set [\<lparr>Key = ''a/b/c/f/'', Value = Some ''value3''\<rparr>, ?kv,
              \<lparr>Key = ''a/b/d/#/'', Value = Some ''value1''\<rparr>]"
    by simp
  from Match_key_shape [OF r m this, unfolded sep s] p
  have "\<exists>q m. node_at (root ?t) q = Some m \<and> val m = Value ?kv
          \<and> Key ?kv = (if multi_dispatch ?t [''a'', ''b'', ''+'', ''#''] (length [''a'', ''b'', ''c''])
                       then join ''/'' q @ ''/'' else join ''/'' q)"
    by blast
  then have "\<exists>q m. node_at (root ?t) q = Some m \<and> val m = Some ''value2''
          \<and> ''a/b/c/d/'' = join ''/'' q @ ''/''"
    unfolding if_P [OF d] by simp
  with r m p show ?thesis by simp
qed



text \<open>
  The stack entries that the loop of \<open>Match\<close> gets to from an entry: the entry itself,
  and what it gets to from the entries that the iteration for it pushes. An entry
  whose index is out of range pushes nothing, since the iteration for it panics.
\<close>

inductive visits :: "'v Trie \<Rightarrow> string list \<Rightarrow> 'v stackNode \<Rightarrow> 'v stackNode \<Rightarrow> bool"
  for t :: "'v Trie" and parts :: "string list" where
  here: "visits t parts f f"
| push: "i < length parts \<Longrightarrow> f \<in> set (pushed t parts n i keypart) \<Longrightarrow> visits t parts f g
          \<Longrightarrow> visits t parts (n, i, keypart) g"






text \<open>
  The hypothesis that \<open>Match\<close> returns cannot be dropped. With \<open>a/#\<close> stored with a
  nil value and \<open>a/b/c\<close> stored too, the iteration for node \<open>a\<close> of \<open>Match("a/b")\<close>
  appends the pair for \<open>a/#\<close> and pushes the valueless node \<open>a/b\<close> with index 2, and
  the next iteration panics.
\<close>

lemma Match_panics_after_nil_pair:
  "Match (inserted (inserted (slash_trie :: string Trie) ''a/#'' None) ''a/b/c'' (Some ''value1''))
     ''a/b'' = Inl IndexOutOfRange"
  by (simp add: trie_eval)



end
